theory Spec2Isabelle
  imports Main "HOL-Library.Multiset"
begin

section \<open>The thread pool of threadpoolpattern.cpp\<close>

text \<open>
  The program is a pool of worker threads (\<open>class worker\<close>, \<open>class thread_pool\<close>)
  that share a deque of tasks, a mutex \<open>queue_mutex_\<close>, a condition variable \<open>cv_\<close>
  and a flag \<open>stop_\<close>. Its behaviour is the interleaving of the statements of

  \<^item> \<open>worker::operator()\<close> (lines 81 to 97), run by every thread of \<open>workers_\<close>;
  \<^item> \<open>thread_pool::enqueue\<close> (lines 114 to 120), called by any thread;
  \<^item> \<open>thread_pool::~thread_pool\<close> (lines 105 to 111), run by the thread that owns
    the pool.

  The embedding is a transition system: the state is a record of the shared fields
  and of the place every thread has reached in its function; one transition is one
  statement of one thread. A statement that blocks (locking a held mutex, waiting
  on the condition variable, joining a running thread) has no transition, which
  is \<open>None\<close>.
\<close>

subsection \<open>Data\<close>

text \<open>
  A task is a \<open>function<void()>\<close>: the pool can only call it. The model keeps an
  identifier, to tell tasks apart, and whether the call throws.
\<close>

datatype task = Task (task_id: nat) (throws: bool)

text \<open>The threads that lock \<open>queue_mutex_\<close>: workers and callers of \<open>enqueue\<close>.\<close>

datatype thread = Worker nat | Producer nat

text \<open>
  The places of \<open>worker::operator()\<close>. A worker is at the statement it executes next.

  \<^item> \<open>W_Lock\<close>: line 83, \<open>unique_lock<mutex> locker(pool_.queue_mutex_)\<close>;
  \<^item> \<open>W_CheckStop\<close>: line 85, \<open>if (pool_.stop_) return\<close>;
  \<^item> \<open>W_CheckEmpty\<close>: line 89, the test of \<open>while (pool_.tasks_.empty())\<close>;
  \<^item> \<open>W_Waiting\<close>: line 90, inside \<open>cv_.wait(locker)\<close>, the mutex released;
  \<^item> \<open>W_Reacquire\<close>: line 90, woken inside \<open>wait\<close>, which locks the mutex again
    before it returns;
  \<^item> \<open>W_Front\<close>: line 92, \<open>task = pool_.tasks_.front()\<close>;
  \<^item> \<open>W_PopFront t\<close>: line 93, \<open>pool_.tasks_.pop_front()\<close>, with \<open>t\<close> the copy made
    at line 92;
  \<^item> \<open>W_Unlock t\<close>: line 94, \<open>locker.unlock()\<close>;
  \<^item> \<open>W_Run t\<close>: line 95, \<open>task()\<close>;
  \<^item> \<open>W_Returned\<close>: the function has returned (line 86);
  \<^item> \<open>W_Terminated t\<close>: the call \<open>t()\<close> of line 95 threw; the loop has no handler, so
    the exception has left the function. In C++ this ends the whole process
    (\<open>std::terminate\<close>); the model only stops this worker, which allows more
    behaviour of the other threads, not less;
  \<^item> \<open>W_Undefined\<close>: \<open>front()\<close> or \<open>pop_front()\<close> was applied to an empty deque.
\<close>

datatype wloc =
    W_Lock
  | W_CheckStop
  | W_CheckEmpty
  | W_Waiting
  | W_Reacquire
  | W_Front
  | W_PopFront task
  | W_Unlock task
  | W_Run task
  | W_Returned
  | W_Terminated task
  | W_Undefined

text \<open>
  The places of \<open>thread_pool::enqueue\<close>: \<open>P_Idle\<close> outside a call, \<open>P_Lock f\<close> at
  line 117, \<open>P_Push f\<close> at line 118, \<open>P_Notify\<close> at line 119, and \<open>P_Unlock\<close> at the end
  of the scope (line 120), where the destructor of \<open>lock\<close> unlocks the mutex.
\<close>

datatype ploc = P_Idle | P_Lock task | P_Push task | P_Notify | P_Unlock

text \<open>
  The places of the owner of the pool: \<open>O_Alive\<close> before the destructor (line 107 is
  its next statement), \<open>O_Join i\<close> in the loop of lines 109 and 110 at the \<open>i\<close>-th
  element of \<open>workers_\<close>, \<open>O_Done\<close> when the destructor has returned. The calls of
  \<open>enqueue\<close> that the owner makes before it destroys the pool, as \<open>main\<close> does, are
  calls of some thread \<open>k\<close> in the model, scheduled before the destructor.
\<close>

datatype oloc = O_Alive | O_Join nat | O_Done

text \<open>
  The fields of \<open>class thread_pool\<close> and the threads around them, named as in the
  source without the trailing underscore (\<open>tasks\<close> is \<open>tasks_\<close>, and so on).
  \<open>workers\<close> holds, for each thread of the vector, the place it has reached, and
  \<open>producers\<close> the place of every other thread in \<open>enqueue\<close>. The waiters of \<open>cv_\<close> are
  the workers at \<open>W_Waiting\<close>. The mutex \<open>m_\<close> is declared and never used.
  \<open>submitted\<close>, \<open>popped\<close> and \<open>executed\<close> are history only: the tasks in the order of
  their \<open>push_back\<close>, of their \<open>pop_front\<close>, and of the return of their call.
\<close>

record pool =
  tasks :: "task list"
  stop :: bool
  queue_mutex :: "thread option"
  workers :: "wloc list"
  producers :: "nat \<Rightarrow> ploc"
  owner :: oloc
  submitted :: "task list"
  popped :: "task list"
  executed :: "task list"

subsection \<open>The constructor\<close>

text \<open>
  Lines 99 to 103: \<open>stop_\<close> is initialised to \<open>false\<close>, the deque is empty, and
  one thread running \<open>worker(*this)\<close> is pushed for every \<open>i < threads\<close>. There is no
  test of \<open>threads\<close> and no \<open>throw\<close>.
\<close>

definition thread_pool :: "nat \<Rightarrow> pool" where
  "thread_pool threads =
     \<lparr> tasks = [], stop = False, queue_mutex = None,
       workers = replicate threads W_Lock,
       producers = (\<lambda>k. P_Idle), owner = O_Alive,
       submitted = [], popped = [], executed = [] \<rparr>"

text \<open>
  The error kinds of the specification, and the constructor seen as an operation
  that can fail: the code has no failing path, so the result is always the pool.
\<close>

datatype error = InvalidConfiguration | RejectedSubmission

definition construct :: "nat \<Rightarrow> error + pool" where
  "construct threads = Inr (thread_pool threads)"

subsection \<open>The worker loop\<close>

definition goto :: "nat \<Rightarrow> wloc \<Rightarrow> pool \<Rightarrow> pool" where
  "goto i l s = s\<lparr>workers := (workers s)[i := l]\<rparr>"

text \<open>
  One statement of worker \<open>i\<close>. Leaving line 86 by \<open>return\<close> destroys \<open>locker\<close>, which
  unlocks the mutex. \<open>wait\<close> unlocks the mutex and blocks; the worker leaves
  \<open>W_Waiting\<close> only by \<open>wake\<close> below. The loop \<open>while (true)\<close> goes back to line 83
  after the call of line 95 has returned.
\<close>

definition worker :: "nat \<Rightarrow> pool \<Rightarrow> pool option" where
  "worker i s =
     (if i < length (workers s) then
        (case workers s ! i of
           W_Lock \<Rightarrow>
             if queue_mutex s = None
             then Some (goto i W_CheckStop (s\<lparr>queue_mutex := Some (Worker i)\<rparr>))
             else None
         | W_CheckStop \<Rightarrow>
             if stop s
             then Some (goto i W_Returned (s\<lparr>queue_mutex := None\<rparr>))
             else Some (goto i W_CheckEmpty s)
         | W_CheckEmpty \<Rightarrow>
             if tasks s = []
             then Some (goto i W_Waiting (s\<lparr>queue_mutex := None\<rparr>))
             else Some (goto i W_Front s)
         | W_Waiting \<Rightarrow> None
         | W_Reacquire \<Rightarrow>
             if queue_mutex s = None
             then Some (goto i W_CheckEmpty (s\<lparr>queue_mutex := Some (Worker i)\<rparr>))
             else None
         | W_Front \<Rightarrow>
             (case tasks s of
                [] \<Rightarrow> Some (goto i W_Undefined s)
              | t # q \<Rightarrow> Some (goto i (W_PopFront t) s))
         | W_PopFront t \<Rightarrow>
             (case tasks s of
                [] \<Rightarrow> Some (goto i W_Undefined s)
              | u # q \<Rightarrow> Some (goto i (W_Unlock t) (s\<lparr>tasks := q, popped := popped s @ [u]\<rparr>)))
         | W_Unlock t \<Rightarrow> Some (goto i (W_Run t) (s\<lparr>queue_mutex := None\<rparr>))
         | W_Run t \<Rightarrow>
             if throws t
             then Some (goto i (W_Terminated t) s)
             else Some (goto i W_Lock (s\<lparr>executed := executed s @ [t]\<rparr>))
         | W_Returned \<Rightarrow> None
         | W_Terminated t \<Rightarrow> None
         | W_Undefined \<Rightarrow> None)
      else None)"

text \<open>
  A waiter of \<open>cv_\<close> is woken by a notification or spuriously; it then has to lock
  the mutex again.
\<close>

definition wake :: "nat \<Rightarrow> pool \<Rightarrow> pool option" where
  "wake i s =
     (if i < length (workers s) \<and> workers s ! i = W_Waiting
      then Some (goto i W_Reacquire s) else None)"

subsection \<open>enqueue\<close>

text \<open>
  \<open>cv_.notify_one()\<close> wakes one of the waiters, if there is one: \<open>pick\<close> says which;
  \<open>None\<close> is possible only when no worker waits.
\<close>

definition notify_one :: "nat option \<Rightarrow> pool \<Rightarrow> pool option" where
  "notify_one pick s =
     (case pick of
        None \<Rightarrow> if W_Waiting \<in> set (workers s) then None else Some s
      | Some i \<Rightarrow> wake i s)"

text \<open>
  \<open>call_enqueue k f\<close> is thread \<open>k\<close> entering \<open>enqueue(f)\<close>; \<open>enqueue k pick\<close> is its
  next statement. The function has no test of \<open>stop_\<close> and returns \<open>void\<close>.
\<close>

definition call_enqueue :: "nat \<Rightarrow> task \<Rightarrow> pool \<Rightarrow> pool option" where
  "call_enqueue k f s =
     (if producers s k = P_Idle
      then Some (s\<lparr>producers := (producers s)(k := P_Lock f)\<rparr>) else None)"

definition enqueue :: "nat \<Rightarrow> nat option \<Rightarrow> pool \<Rightarrow> pool option" where
  "enqueue k pick s =
     (case producers s k of
        P_Idle \<Rightarrow> None
      | P_Lock f \<Rightarrow>
          if queue_mutex s = None
          then Some (s\<lparr>queue_mutex := Some (Producer k),
                       producers := (producers s)(k := P_Push f)\<rparr>)
          else None
      | P_Push f \<Rightarrow>
          Some (s\<lparr>tasks := tasks s @ [f], submitted := submitted s @ [f],
                  producers := (producers s)(k := P_Notify)\<rparr>)
      | P_Notify \<Rightarrow>
          (case notify_one pick s of
             None \<Rightarrow> None
           | Some s' \<Rightarrow> Some (s'\<lparr>producers := (producers s')(k := P_Unlock)\<rparr>))
      | P_Unlock \<Rightarrow>
          Some (s\<lparr>queue_mutex := None, producers := (producers s)(k := P_Idle)\<rparr>))"

subsection \<open>The destructor\<close>

text \<open>
  Line 107 assigns \<open>stop_ = true\<close>: the mutex is not locked and \<open>cv_\<close> is not
  notified. The write races with the read of line 85; the model takes it as one
  atomic step that every later read sees. Lines 109 and 110 join the workers in the
  order of the vector; \<open>join\<close> blocks until the thread's function has returned.
\<close>

definition destructor :: "pool \<Rightarrow> pool option" where
  "destructor s =
     (case owner s of
        O_Alive \<Rightarrow> Some (s\<lparr>stop := True, owner := O_Join 0\<rparr>)
      | O_Join i \<Rightarrow>
          if i < length (workers s)
          then (if workers s ! i = W_Returned then Some (s\<lparr>owner := O_Join (Suc i)\<rparr>) else None)
          else Some (s\<lparr>owner := O_Done\<rparr>)
      | O_Done \<Rightarrow> None)"

subsection \<open>Interleavings\<close>

text \<open>
  The actions of a schedule: \<open>WStep i\<close>, worker \<open>i\<close> executes its next statement;
  \<open>Wake i\<close>, worker \<open>i\<close> wakes spuriously inside \<open>wait\<close>; \<open>PCall k f\<close>, thread \<open>k\<close> calls
  \<open>enqueue(f)\<close>; \<open>PStep k pick\<close>, thread \<open>k\<close> executes its next statement of \<open>enqueue\<close>
  (\<open>pick\<close> is read at line 119 only); \<open>OStep\<close>, the owner executes its next statement
  of the destructor.
\<close>

datatype action =
    WStep nat
  | Wake nat
  | PCall nat task
  | PStep nat "nat option"
  | OStep

fun exec :: "action \<Rightarrow> pool \<Rightarrow> pool option" where
  "exec (WStep i) s = worker i s"
| "exec (Wake i) s = wake i s"
| "exec (PCall k f) s = call_enqueue k f s"
| "exec (PStep k pick) s = enqueue k pick s"
| "exec OStep s = destructor s"

text \<open>A schedule is a list of actions; it runs as long as every action can be taken.\<close>

fun run :: "action list \<Rightarrow> pool \<Rightarrow> pool option" where
  "run [] s = Some s"
| "run (a # as) s = (case exec a s of None \<Rightarrow> None | Some s' \<Rightarrow> run as s')"

subsection \<open>Invariants of the reachable states\<close>

text \<open>
  The places where a thread holds \<open>queue_mutex_\<close>: a worker from the lock of line 83
  (or from the return of \<open>wait\<close>) to the unlock of line 94, a caller of \<open>enqueue\<close> from
  line 117 to the end of the function.
\<close>

fun wholds :: "wloc \<Rightarrow> bool" where
  "wholds W_CheckStop = True"
| "wholds W_CheckEmpty = True"
| "wholds W_Front = True"
| "wholds (W_PopFront t) = True"
| "wholds (W_Unlock t) = True"
| "wholds _ = False"

fun pholds :: "ploc \<Rightarrow> bool" where
  "pholds (P_Push f) = True"
| "pholds P_Notify = True"
| "pholds P_Unlock = True"
| "pholds _ = False"

text \<open>The mutex is owned by a thread exactly when that thread is at such a place.\<close>

definition lock_inv :: "pool \<Rightarrow> bool" where
  "lock_inv s \<longleftrightarrow>
     (\<forall>i. queue_mutex s = Some (Worker i) \<longleftrightarrow> i < length (workers s) \<and> wholds (workers s ! i)) \<and>
     (\<forall>k. queue_mutex s = Some (Producer k) \<longleftrightarrow> pholds (producers s k))"

text \<open>
  A worker at line 92 or 93 finds a deque that is not empty, at line 93 with the
  element it copied still at the front; no worker has applied \<open>front\<close> or \<open>pop_front\<close>
  to an empty deque.
\<close>

definition front_inv :: "pool \<Rightarrow> bool" where
  "front_inv s \<longleftrightarrow>
     (\<forall>i<length (workers s).
        (workers s ! i = W_Front \<longrightarrow> tasks s \<noteq> []) \<and>
        (\<forall>t. workers s ! i = W_PopFront t \<longrightarrow> tasks s \<noteq> [] \<and> hd (tasks s) = t) \<and>
        workers s ! i \<noteq> W_Undefined)"

text \<open>
  The task a worker has removed from the deque and not finished: between line 93
  and the return of the call of line 95, and for good when the call threw.
\<close>

fun holding :: "wloc \<Rightarrow> task list" where
  "holding (W_Unlock t) = [t]"
| "holding (W_Run t) = [t]"
| "holding (W_Terminated t) = [t]"
| "holding _ = []"

definition in_flight :: "wloc list \<Rightarrow> task multiset" where
  "in_flight ws = mset (concat (map holding ws))"

text \<open>
  The tasks popped so far followed by the deque are the tasks pushed so far, in
  the order of the pushes; a popped task is either finished or held by a worker.
\<close>

definition hist_inv :: "pool \<Rightarrow> bool" where
  "hist_inv s \<longleftrightarrow>
     popped s @ tasks s = submitted s \<and>
     mset (executed s) + in_flight (workers s) = mset (popped s)"

text \<open>
  \<open>stop_\<close> is set exactly from line 107 on; the workers the destructor has joined
  have returned.
\<close>

definition join_inv :: "pool \<Rightarrow> bool" where
  "join_inv s \<longleftrightarrow>
     (stop s \<longleftrightarrow> owner s \<noteq> O_Alive) \<and>
     (\<forall>j. owner s = O_Join j \<longrightarrow> j \<le> length (workers s) \<and> (\<forall>i<j. workers s ! i = W_Returned)) \<and>
     (owner s = O_Done \<longrightarrow> (\<forall>i<length (workers s). workers s ! i = W_Returned))"

definition pool_inv :: "pool \<Rightarrow> bool" where
  "pool_inv s \<longleftrightarrow> lock_inv s \<and> front_inv s \<and> hist_inv s \<and> join_inv s"

text \<open>A worker whose function has returned has seen \<open>stop_\<close> set.\<close>

definition exit_inv :: "pool \<Rightarrow> bool" where
  "exit_inv s \<longleftrightarrow> (\<forall>i<length (workers s). workers s ! i = W_Returned \<longrightarrow> stop s)"

subsection \<open>A worker parked in the wait loop\<close>

text \<open>
  The loop of lines 89 and 90: its test, the wait, and the re-lock after a wake.
\<close>

fun in_wait_loop :: "wloc \<Rightarrow> bool" where
  "in_wait_loop W_CheckEmpty = True"
| "in_wait_loop W_Waiting = True"
| "in_wait_loop W_Reacquire = True"
| "in_wait_loop _ = False"

text \<open>
  Worker \<open>i\<close> is in the wait loop, the deque is empty, no thread is inside
  \<open>enqueue\<close>, and the destructor has not joined worker \<open>i\<close> yet.
\<close>

definition parked :: "nat \<Rightarrow> pool \<Rightarrow> bool" where
  "parked i s \<longleftrightarrow>
     i < length (workers s) \<and> in_wait_loop (workers s ! i) \<and> tasks s = [] \<and>
     (\<forall>k. producers s k = P_Idle) \<and>
     (case owner s of O_Alive \<Rightarrow> True | O_Join j \<Rightarrow> j \<le> i | O_Done \<Rightarrow> False)"

text \<open>A schedule in which no thread calls \<open>enqueue\<close>.\<close>

fun is_call :: "action \<Rightarrow> bool" where
  "is_call (PCall k f) = True"
| "is_call _ = False"

definition no_calls :: "action list \<Rightarrow> bool" where
  "no_calls as \<longleftrightarrow> filter is_call as = []"

section \<open>Properties\<close>

subsection \<open>The transitions, case by case\<close>

lemma workerE [consumes 1, case_names lock ret nostop wait nonempty reacquire undef_front front undef_pop popfront unlock throw finish]:
  assumes "worker i s = Some s'"
  obtains
    "i < length (workers s)" "workers s ! i = W_Lock" "queue_mutex s = None"
      "s' = s\<lparr>queue_mutex := Some (Worker i), workers := (workers s)[i := W_CheckStop]\<rparr>"
  | "i < length (workers s)" "workers s ! i = W_CheckStop" "stop s"
      "s' = s\<lparr>queue_mutex := None, workers := (workers s)[i := W_Returned]\<rparr>"
  | "i < length (workers s)" "workers s ! i = W_CheckStop" "\<not> stop s"
      "s' = s\<lparr>workers := (workers s)[i := W_CheckEmpty]\<rparr>"
  | "i < length (workers s)" "workers s ! i = W_CheckEmpty" "tasks s = []"
      "s' = s\<lparr>queue_mutex := None, workers := (workers s)[i := W_Waiting]\<rparr>"
  | "i < length (workers s)" "workers s ! i = W_CheckEmpty" "tasks s \<noteq> []"
      "s' = s\<lparr>workers := (workers s)[i := W_Front]\<rparr>"
  | "i < length (workers s)" "workers s ! i = W_Reacquire" "queue_mutex s = None"
      "s' = s\<lparr>queue_mutex := Some (Worker i), workers := (workers s)[i := W_CheckEmpty]\<rparr>"
  | "i < length (workers s)" "workers s ! i = W_Front" "tasks s = []"
      "s' = s\<lparr>workers := (workers s)[i := W_Undefined]\<rparr>"
  | t q where "i < length (workers s)" "workers s ! i = W_Front" "tasks s = t # q"
      "s' = s\<lparr>workers := (workers s)[i := W_PopFront t]\<rparr>"
  | t where "i < length (workers s)" "workers s ! i = W_PopFront t" "tasks s = []"
      "s' = s\<lparr>workers := (workers s)[i := W_Undefined]\<rparr>"
  | t u q where "i < length (workers s)" "workers s ! i = W_PopFront t" "tasks s = u # q"
      "s' = s\<lparr>tasks := q, popped := popped s @ [u], workers := (workers s)[i := W_Unlock t]\<rparr>"
  | t where "i < length (workers s)" "workers s ! i = W_Unlock t"
      "s' = s\<lparr>queue_mutex := None, workers := (workers s)[i := W_Run t]\<rparr>"
  | t where "i < length (workers s)" "workers s ! i = W_Run t" "throws t"
      "s' = s\<lparr>workers := (workers s)[i := W_Terminated t]\<rparr>"
  | t where "i < length (workers s)" "workers s ! i = W_Run t" "\<not> throws t"
      "s' = s\<lparr>executed := executed s @ [t], workers := (workers s)[i := W_Lock]\<rparr>"
proof (cases "i < length (workers s)")
  case False
  with assms show ?thesis by (simp add: worker_def)
next
  case True
  show ?thesis
  proof (cases "workers s ! i")
    case W_Lock
    with assms True that(1) show ?thesis by (simp add: worker_def goto_def split: if_splits)
  next
    case W_CheckStop
    with assms True that(2,3) show ?thesis by (simp add: worker_def goto_def split: if_splits)
  next
    case W_CheckEmpty
    with assms True that(4,5) show ?thesis by (simp add: worker_def goto_def split: if_splits)
  next
    case W_Waiting
    with assms True show ?thesis by (simp add: worker_def)
  next
    case W_Reacquire
    with assms True that(6) show ?thesis by (simp add: worker_def goto_def split: if_splits)
  next
    case W_Front
    with assms True that(7,8) show ?thesis by (simp add: worker_def goto_def split: list.splits)
  next
    case (W_PopFront t)
    with assms True that(9,10) show ?thesis by (simp add: worker_def goto_def split: list.splits)
  next
    case (W_Unlock t)
    with assms True that(11) show ?thesis by (simp add: worker_def goto_def)
  next
    case (W_Run t)
    with assms True that(12,13) show ?thesis by (simp add: worker_def goto_def split: if_splits)
  next
    case W_Returned
    with assms True show ?thesis by (simp add: worker_def)
  next
    case (W_Terminated t)
    with assms True show ?thesis by (simp add: worker_def)
  next
    case W_Undefined
    with assms True show ?thesis by (simp add: worker_def)
  qed
qed


lemma wakeE [consumes 1, case_names wake]:
  assumes "wake i s = Some s'"
  obtains "i < length (workers s)" "workers s ! i = W_Waiting"
    "s' = s\<lparr>workers := (workers s)[i := W_Reacquire]\<rparr>"
  using assms by (simp add: wake_def goto_def split: if_splits)

lemma call_enqueueE [consumes 1, case_names call]:
  assumes "call_enqueue k f s = Some s'"
  obtains "producers s k = P_Idle" "s' = s\<lparr>producers := (producers s)(k := P_Lock f)\<rparr>"
  using assms by (simp add: call_enqueue_def split: if_splits)

lemma enqueueE [consumes 1, case_names lock push notify_none notify_some unlock]:
  assumes "enqueue k pick s = Some s'"
  obtains
    f where "producers s k = P_Lock f" "queue_mutex s = None"
      "s' = s\<lparr>queue_mutex := Some (Producer k), producers := (producers s)(k := P_Push f)\<rparr>"
  | f where "producers s k = P_Push f"
      "s' = s\<lparr>tasks := tasks s @ [f], submitted := submitted s @ [f],
                producers := (producers s)(k := P_Notify)\<rparr>"
  | "producers s k = P_Notify" "pick = None" "W_Waiting \<notin> set (workers s)"
      "s' = s\<lparr>producers := (producers s)(k := P_Unlock)\<rparr>"
  | i where "producers s k = P_Notify" "pick = Some i" "i < length (workers s)"
      "workers s ! i = W_Waiting"
      "s' = s\<lparr>workers := (workers s)[i := W_Reacquire], producers := (producers s)(k := P_Unlock)\<rparr>"
  | "producers s k = P_Unlock"
      "s' = s\<lparr>queue_mutex := None, producers := (producers s)(k := P_Idle)\<rparr>"
proof (cases "producers s k")
  case P_Idle
  with assms show ?thesis by (simp add: enqueue_def)
next
  case (P_Lock f)
  with assms that(1) show ?thesis by (simp add: enqueue_def split: if_splits)
next
  case (P_Push f)
  with assms that(2) show ?thesis by (simp add: enqueue_def)
next
  case P_Notify
  show ?thesis
  proof (cases pick)
    case None
    with assms P_Notify that(3) show ?thesis
      by (simp add: enqueue_def notify_one_def split: if_splits)
  next
    case (Some i)
    with assms P_Notify that(4) show ?thesis
      by (simp add: enqueue_def notify_one_def wake_def goto_def split: if_splits)
  qed
next
  case P_Unlock
  with assms that(5) show ?thesis by (simp add: enqueue_def)
qed

lemma destructorE [consumes 1, case_names stop join finish]:
  assumes "destructor s = Some s'"
  obtains
    "owner s = O_Alive" "s' = s\<lparr>stop := True, owner := O_Join 0\<rparr>"
  | j where "owner s = O_Join j" "j < length (workers s)" "workers s ! j = W_Returned"
      "s' = s\<lparr>owner := O_Join (Suc j)\<rparr>"
  | j where "owner s = O_Join j" "\<not> j < length (workers s)" "s' = s\<lparr>owner := O_Done\<rparr>"
proof (cases "owner s")
  case O_Alive
  with assms that(1) show ?thesis by (simp add: destructor_def)
next
  case (O_Join j)
  with assms that(2,3) show ?thesis by (simp add: destructor_def split: if_splits)
next
  case O_Done
  with assms show ?thesis by (simp add: destructor_def)
qed




subsection \<open>The mutex\<close>

lemma lock_inv_workerD:
  "lock_inv s \<Longrightarrow> i < length (workers s) \<Longrightarrow> wholds (workers s ! i) \<Longrightarrow> queue_mutex s = Some (Worker i)"
  by (simp add: lock_inv_def)

lemma lock_inv_producerD:
  "lock_inv s \<Longrightarrow> pholds (producers s k) \<Longrightarrow> queue_mutex s = Some (Producer k)"
  by (simp add: lock_inv_def)

lemma lock_inv_worker:
  assumes "lock_inv s" "front_inv s" "worker i s = Some s'"
  shows "lock_inv s'"
  using assms(3)
proof (cases rule: workerE)
  case lock with assms(1) show ?thesis unfolding lock_inv_def by (auto simp: nth_list_update)
next
  case ret
  with assms(1) have "queue_mutex s = Some (Worker i)" by (simp add: lock_inv_workerD)
  with ret assms(1) show ?thesis unfolding lock_inv_def by (auto simp: nth_list_update)
next
  case nostop
  with assms(1) have "queue_mutex s = Some (Worker i)" by (simp add: lock_inv_workerD)
  with nostop assms(1) show ?thesis unfolding lock_inv_def by (auto simp: nth_list_update)
next
  case wait
  with assms(1) have "queue_mutex s = Some (Worker i)" by (simp add: lock_inv_workerD)
  with wait assms(1) show ?thesis unfolding lock_inv_def by (auto simp: nth_list_update)
next
  case nonempty
  with assms(1) have "queue_mutex s = Some (Worker i)" by (simp add: lock_inv_workerD)
  with nonempty assms(1) show ?thesis unfolding lock_inv_def by (auto simp: nth_list_update)
next
  case reacquire with assms(1) show ?thesis unfolding lock_inv_def by (auto simp: nth_list_update)
next
  case undef_front with assms(2) show ?thesis unfolding front_inv_def by simp
next
  case front
  with assms(1) have "queue_mutex s = Some (Worker i)" by (simp add: lock_inv_workerD)
  with front assms(1) show ?thesis unfolding lock_inv_def by (auto simp: nth_list_update)
next
  case undef_pop with assms(2) show ?thesis unfolding front_inv_def by simp
next
  case popfront
  with assms(1) have "queue_mutex s = Some (Worker i)" by (simp add: lock_inv_workerD)
  with popfront assms(1) show ?thesis unfolding lock_inv_def by (auto simp: nth_list_update)
next
  case unlock
  with assms(1) have "queue_mutex s = Some (Worker i)" by (simp add: lock_inv_workerD)
  with unlock assms(1) show ?thesis unfolding lock_inv_def by (auto simp: nth_list_update)
next
  case throw with assms(1) show ?thesis unfolding lock_inv_def by (auto simp: nth_list_update)
next
  case finish with assms(1) show ?thesis unfolding lock_inv_def by (auto simp: nth_list_update)
qed


lemma lock_inv_wake:
  assumes "lock_inv s" "wake i s = Some s'"
  shows "lock_inv s'"
  using assms(2)
proof (cases rule: wakeE)
  case wake with assms(1) show ?thesis unfolding lock_inv_def by (auto simp: nth_list_update)
qed

lemma lock_inv_call_enqueue:
  assumes "lock_inv s" "call_enqueue k f s = Some s'"
  shows "lock_inv s'"
  using assms(2)
proof (cases rule: call_enqueueE)
  case call with assms(1) show ?thesis unfolding lock_inv_def by auto
qed

lemma lock_inv_enqueue:
  assumes "lock_inv s" "enqueue k pick s = Some s'"
  shows "lock_inv s'"
  using assms(2)
proof (cases rule: enqueueE)
  case lock with assms(1) show ?thesis unfolding lock_inv_def by auto
next
  case push
  with assms(1) have "queue_mutex s = Some (Producer k)" by (simp add: lock_inv_producerD)
  with push assms(1) show ?thesis unfolding lock_inv_def by auto
next
  case notify_none
  with assms(1) have "queue_mutex s = Some (Producer k)" by (simp add: lock_inv_producerD)
  with notify_none assms(1) show ?thesis unfolding lock_inv_def by auto
next
  case notify_some
  with assms(1) have "queue_mutex s = Some (Producer k)" by (simp add: lock_inv_producerD)
  with notify_some assms(1) show ?thesis unfolding lock_inv_def by (auto simp: nth_list_update)
next
  case unlock
  with assms(1) have "queue_mutex s = Some (Producer k)" by (simp add: lock_inv_producerD)
  with unlock assms(1) show ?thesis unfolding lock_inv_def by auto
qed

lemma lock_inv_destructor:
  assumes "lock_inv s" "destructor s = Some s'"
  shows "lock_inv s'"
  using assms(2)
proof (cases rule: destructorE)
  case stop with assms(1) show ?thesis unfolding lock_inv_def by simp
next
  case join with assms(1) show ?thesis unfolding lock_inv_def by simp
next
  case finish with assms(1) show ?thesis unfolding lock_inv_def by simp
qed

subsection \<open>The front of the deque\<close>

lemma lock_inv_others:
  "lock_inv s \<Longrightarrow> queue_mutex s = Some (Worker i) \<Longrightarrow> j < length (workers s) \<Longrightarrow> j \<noteq> i
    \<Longrightarrow> \<not> wholds (workers s ! j)"
  by (auto simp: lock_inv_def)

lemma front_inv_worker:
  assumes "lock_inv s" "front_inv s" "worker i s = Some s'"
  shows "front_inv s'"
  using assms(3)
proof (cases rule: workerE)
  case lock with assms(2) show ?thesis unfolding front_inv_def by (auto simp: nth_list_update)
next
  case ret with assms(2) show ?thesis unfolding front_inv_def by (auto simp: nth_list_update)
next
  case nostop with assms(2) show ?thesis unfolding front_inv_def by (auto simp: nth_list_update)
next
  case wait with assms(2) show ?thesis unfolding front_inv_def by (auto simp: nth_list_update)
next
  case nonempty with assms(2) show ?thesis unfolding front_inv_def by (auto simp: nth_list_update)
next
  case reacquire with assms(2) show ?thesis unfolding front_inv_def by (auto simp: nth_list_update)
next
  case undef_front with assms(2) show ?thesis unfolding front_inv_def by simp
next
  case front with assms(2) show ?thesis unfolding front_inv_def by (auto simp: nth_list_update)
next
  case undef_pop with assms(2) show ?thesis unfolding front_inv_def by simp
next
  case (popfront t u q)
  with assms(1) have m: "queue_mutex s = Some (Worker i)" by (simp add: lock_inv_workerD)
  have others: "\<not> wholds (workers s ! j)" if "j < length (workers s)" "j \<noteq> i" for j
    using lock_inv_others [OF assms(1) m that] .
  show ?thesis
    unfolding front_inv_def
  proof (intro allI impI)
    fix j assume j: "j < length (workers s')"
    show "(workers s' ! j = W_Front \<longrightarrow> tasks s' \<noteq> []) \<and>
          (\<forall>t. workers s' ! j = W_PopFront t \<longrightarrow> tasks s' \<noteq> [] \<and> hd (tasks s') = t) \<and>
          workers s' ! j \<noteq> W_Undefined"
    proof (cases "j = i")
      case True
      with popfront show ?thesis by simp
    next
      case False
      with j popfront have "\<not> wholds (workers s ! j)" "workers s' ! j = workers s ! j"
        "workers s ! j \<noteq> W_Undefined"
        using others [of j] assms(2) by (simp_all add: front_inv_def)
      then show ?thesis by auto
    qed
  qed
next
  case unlock with assms(2) show ?thesis unfolding front_inv_def by (auto simp: nth_list_update)
next
  case throw with assms(2) show ?thesis unfolding front_inv_def by (auto simp: nth_list_update)
next
  case finish with assms(2) show ?thesis unfolding front_inv_def by (auto simp: nth_list_update)
qed

lemma front_inv_wake:
  assumes "front_inv s" "wake i s = Some s'"
  shows "front_inv s'"
  using assms(2)
proof (cases rule: wakeE)
  case wake with assms(1) show ?thesis unfolding front_inv_def by (auto simp: nth_list_update)
qed

lemma front_inv_call_enqueue:
  assumes "front_inv s" "call_enqueue k f s = Some s'"
  shows "front_inv s'"
  using assms(2)
proof (cases rule: call_enqueueE)
  case call with assms(1) show ?thesis unfolding front_inv_def by simp
qed

lemma front_inv_enqueue:
  assumes "front_inv s" "enqueue k pick s = Some s'"
  shows "front_inv s'"
  using assms(2)
proof (cases rule: enqueueE)
  case lock with assms(1) show ?thesis unfolding front_inv_def by simp
next
  case push with assms(1) show ?thesis unfolding front_inv_def by simp
next
  case notify_none with assms(1) show ?thesis unfolding front_inv_def by simp
next
  case notify_some with assms(1) show ?thesis unfolding front_inv_def by (auto simp: nth_list_update)
next
  case unlock with assms(1) show ?thesis unfolding front_inv_def by simp
qed

lemma front_inv_destructor:
  assumes "front_inv s" "destructor s = Some s'"
  shows "front_inv s'"
  using assms(2)
proof (cases rule: destructorE)
  case stop with assms(1) show ?thesis unfolding front_inv_def by simp
next
  case join with assms(1) show ?thesis unfolding front_inv_def by simp
next
  case finish with assms(1) show ?thesis unfolding front_inv_def by simp
qed


subsection \<open>The history of the tasks\<close>

lemma in_flight_Cons: "in_flight (w # ws) = mset (holding w) + in_flight ws"
  by (simp add: in_flight_def)

lemma in_flight_update:
  "i < length ws \<Longrightarrow>
     in_flight (ws[i := w]) + mset (holding (ws ! i)) = in_flight ws + mset (holding w)"
proof (induction ws arbitrary: i)
  case Nil
  then show ?case by simp
next
  case (Cons a ws)
  show ?case
  proof (cases i)
    case 0
    then show ?thesis by (simp add: in_flight_Cons)
  next
    case (Suc j)
    with Cons.prems have "j < length ws" by simp
    from Cons.IH [OF this] Suc show ?thesis by (simp add: in_flight_Cons)
  qed
qed

lemma in_flight_same:
  "i < length ws \<Longrightarrow> holding (ws ! i) = holding w \<Longrightarrow> in_flight (ws[i := w]) = in_flight ws"
  using in_flight_update [of i ws w] by simp

lemma in_flight_take:
  "i < length ws \<Longrightarrow> holding (ws ! i) = [] \<Longrightarrow> holding w = [t]
    \<Longrightarrow> in_flight (ws[i := w]) = in_flight ws + {#t#}"
  using in_flight_update [of i ws w] by simp

lemma in_flight_drop:
  "i < length ws \<Longrightarrow> holding (ws ! i) = [t] \<Longrightarrow> holding w = []
    \<Longrightarrow> add_mset t (in_flight (ws[i := w])) = in_flight ws"
  using in_flight_update [of i ws w] by simp

lemma hist_inv_worker:
  assumes "front_inv s" "hist_inv s" "worker i s = Some s'"
  shows "hist_inv s'"
  using assms(3)
proof (cases rule: workerE)
  case lock with assms(2) show ?thesis unfolding hist_inv_def by (simp add: in_flight_same)
next
  case ret with assms(2) show ?thesis unfolding hist_inv_def by (simp add: in_flight_same)
next
  case nostop with assms(2) show ?thesis unfolding hist_inv_def by (simp add: in_flight_same)
next
  case wait with assms(2) show ?thesis unfolding hist_inv_def by (simp add: in_flight_same)
next
  case nonempty with assms(2) show ?thesis unfolding hist_inv_def by (simp add: in_flight_same)
next
  case reacquire with assms(2) show ?thesis unfolding hist_inv_def by (simp add: in_flight_same)
next
  case undef_front with assms(2) show ?thesis unfolding hist_inv_def by (simp add: in_flight_same)
next
  case front with assms(2) show ?thesis unfolding hist_inv_def by (simp add: in_flight_same)
next
  case undef_pop with assms(2) show ?thesis unfolding hist_inv_def by (simp add: in_flight_same)
next
  case (popfront t u q)
  with assms(1) have "u = t" by (auto simp: front_inv_def)
  with popfront assms(2) show ?thesis unfolding hist_inv_def by (simp add: in_flight_take)
next
  case unlock with assms(2) show ?thesis unfolding hist_inv_def by (simp add: in_flight_same)
next
  case throw with assms(2) show ?thesis unfolding hist_inv_def by (simp add: in_flight_same)
next
  case (finish t)
  then have drop: "add_mset t (in_flight (workers s')) = in_flight (workers s)"
    by (simp add: in_flight_drop)
  from finish have "mset (executed s') + in_flight (workers s') =
      mset (executed s) + add_mset t (in_flight (workers s'))"
    by simp
  also from assms(2) have "\<dots> = mset (popped s)"
    by (simp only: drop hist_inv_def)
  finally show ?thesis
    using finish assms(2) by (simp add: hist_inv_def)
qed

lemma hist_inv_wake:
  assumes "hist_inv s" "wake i s = Some s'"
  shows "hist_inv s'"
  using assms(2)
proof (cases rule: wakeE)
  case wake with assms(1) show ?thesis unfolding hist_inv_def by (simp add: in_flight_same)
qed

lemma hist_inv_call_enqueue:
  assumes "hist_inv s" "call_enqueue k f s = Some s'"
  shows "hist_inv s'"
  using assms(2)
proof (cases rule: call_enqueueE)
  case call with assms(1) show ?thesis unfolding hist_inv_def by simp
qed

lemma hist_inv_enqueue:
  assumes "hist_inv s" "enqueue k pick s = Some s'"
  shows "hist_inv s'"
  using assms(2)
proof (cases rule: enqueueE)
  case lock with assms(1) show ?thesis unfolding hist_inv_def by simp
next
  case push with assms(1) show ?thesis unfolding hist_inv_def by simp
next
  case notify_none with assms(1) show ?thesis unfolding hist_inv_def by simp
next
  case notify_some with assms(1) show ?thesis unfolding hist_inv_def by (simp add: in_flight_same)
next
  case unlock with assms(1) show ?thesis unfolding hist_inv_def by simp
qed

lemma hist_inv_destructor:
  assumes "hist_inv s" "destructor s = Some s'"
  shows "hist_inv s'"
  using assms(2)
proof (cases rule: destructorE)
  case stop with assms(1) show ?thesis unfolding hist_inv_def by simp
next
  case join with assms(1) show ?thesis unfolding hist_inv_def by simp
next
  case finish with assms(1) show ?thesis unfolding hist_inv_def by simp
qed

subsection \<open>The joined workers\<close>

lemma join_inv_goto:
  assumes "join_inv s" "i < length (workers s)" "workers s ! i \<noteq> W_Returned"
    and "stop s' = stop s" "owner s' = owner s" "workers s' = (workers s)[i := l]"
  shows "join_inv s'"
proof -
  have keep: "(workers s)[i := l] ! j = W_Returned" if "workers s ! j = W_Returned" for j
    using that assms(2,3) by (cases "j = i") simp_all
  from assms(1,4,5,6) show ?thesis
    unfolding join_inv_def by (simp add: keep)
qed

lemma join_inv_worker:
  assumes "join_inv s" "worker i s = Some s'"
  shows "join_inv s'"
  using assms(2)
  by (cases rule: workerE) (rule join_inv_goto [OF assms(1)]; simp)+

lemma join_inv_wake:
  assumes "join_inv s" "wake i s = Some s'"
  shows "join_inv s'"
  using assms(2)
  by (cases rule: wakeE) (rule join_inv_goto [OF assms(1)]; simp)

lemma join_inv_call_enqueue:
  assumes "join_inv s" "call_enqueue k f s = Some s'"
  shows "join_inv s'"
  using assms(2)
proof (cases rule: call_enqueueE)
  case call with assms(1) show ?thesis unfolding join_inv_def by simp
qed

lemma join_inv_enqueue:
  assumes "join_inv s" "enqueue k pick s = Some s'"
  shows "join_inv s'"
  using assms(2)
proof (cases rule: enqueueE)
  case lock with assms(1) show ?thesis unfolding join_inv_def by simp
next
  case push with assms(1) show ?thesis unfolding join_inv_def by simp
next
  case notify_none with assms(1) show ?thesis unfolding join_inv_def by simp
next
  case notify_some
  then show ?thesis by (intro join_inv_goto [OF assms(1)]) simp_all
next
  case unlock with assms(1) show ?thesis unfolding join_inv_def by simp
qed

lemma join_inv_destructor:
  assumes "join_inv s" "destructor s = Some s'"
  shows "join_inv s'"
  using assms(2)
proof (cases rule: destructorE)
  case stop with assms(1) show ?thesis unfolding join_inv_def by simp
next
  case join with assms(1) show ?thesis unfolding join_inv_def by (auto simp: less_Suc_eq)
next
  case finish with assms(1) show ?thesis unfolding join_inv_def by auto
qed

subsection \<open>All reachable states\<close>

lemma pool_inv_exec:
  assumes "pool_inv s" "exec a s = Some s'"
  shows "pool_inv s'"
proof -
  from assms(1) have l: "lock_inv s" and f: "front_inv s" and h: "hist_inv s" and j: "join_inv s"
    by (simp_all add: pool_inv_def)
  show ?thesis
  proof (cases a)
    case (WStep i)
    with assms(2) have w: "worker i s = Some s'" by simp
    show ?thesis
      unfolding pool_inv_def
      using lock_inv_worker [OF l f w] front_inv_worker [OF l f w] hist_inv_worker [OF f h w]
        join_inv_worker [OF j w] by simp
  next
    case (Wake i)
    with assms(2) have w: "wake i s = Some s'" by simp
    show ?thesis
      unfolding pool_inv_def
      using lock_inv_wake [OF l w] front_inv_wake [OF f w] hist_inv_wake [OF h w]
        join_inv_wake [OF j w] by simp
  next
    case (PCall k g)
    with assms(2) have w: "call_enqueue k g s = Some s'" by simp
    show ?thesis
      unfolding pool_inv_def
      using lock_inv_call_enqueue [OF l w] front_inv_call_enqueue [OF f w]
        hist_inv_call_enqueue [OF h w] join_inv_call_enqueue [OF j w] by simp
  next
    case (PStep k pick)
    with assms(2) have w: "enqueue k pick s = Some s'" by simp
    show ?thesis
      unfolding pool_inv_def
      using lock_inv_enqueue [OF l w] front_inv_enqueue [OF f w] hist_inv_enqueue [OF h w]
        join_inv_enqueue [OF j w] by simp
  next
    case OStep
    with assms(2) have w: "destructor s = Some s'" by simp
    show ?thesis
      unfolding pool_inv_def
      using lock_inv_destructor [OF l w] front_inv_destructor [OF f w]
        hist_inv_destructor [OF h w] join_inv_destructor [OF j w] by simp
  qed
qed

lemma pool_inv_run: "pool_inv s \<Longrightarrow> run as s = Some s' \<Longrightarrow> pool_inv s'"
proof (induction as arbitrary: s)
  case Nil
  then show ?case by simp
next
  case (Cons a as)
  from Cons.prems(2) obtain s1 where a: "exec a s = Some s1" and as: "run as s1 = Some s'"
    by (auto split: option.splits)
  from pool_inv_exec [OF Cons.prems(1) a] as show ?case by (rule Cons.IH)
qed

lemma pool_inv_thread_pool: "pool_inv (thread_pool n)"
  by (simp add: pool_inv_def lock_inv_def front_inv_def hist_inv_def join_inv_def thread_pool_def
      in_flight_def)

lemma reachable_inv: "run as (thread_pool n) = Some s \<Longrightarrow> pool_inv s"
  using pool_inv_thread_pool by (rule pool_inv_run)


subsection \<open>Further facts\<close>

text \<open>No worker returns before \<open>stop_\<close> is set.\<close>

lemma exit_inv_exec:
  assumes "exit_inv s" "exec a s = Some s'"
  shows "exit_inv s'"
proof (cases a)
  case (WStep i)
  with assms(2) have "worker i s = Some s'" by simp
  then show ?thesis
    using assms(1) by (cases rule: workerE) (auto simp: exit_inv_def nth_list_update)
next
  case (Wake i)
  with assms(2) have "wake i s = Some s'" by simp
  then show ?thesis
    using assms(1) by (cases rule: wakeE) (auto simp: exit_inv_def nth_list_update)
next
  case (PCall k f)
  with assms(2) have "call_enqueue k f s = Some s'" by simp
  then show ?thesis using assms(1) by (cases rule: call_enqueueE) (simp add: exit_inv_def)
next
  case (PStep k pick)
  with assms(2) have "enqueue k pick s = Some s'" by simp
  then show ?thesis
  proof (cases rule: enqueueE)
    case lock with assms(1) show ?thesis by (simp add: exit_inv_def)
  next
    case push with assms(1) show ?thesis by (simp add: exit_inv_def)
  next
    case notify_none with assms(1) show ?thesis by (simp add: exit_inv_def)
  next
    case notify_some
    with assms(1) show ?thesis by (auto simp: exit_inv_def nth_list_update)
  next
    case unlock with assms(1) show ?thesis by (simp add: exit_inv_def)
  qed
next
  case OStep
  with assms(2) have "destructor s = Some s'" by simp
  then show ?thesis using assms(1) by (cases rule: destructorE) (simp_all add: exit_inv_def)
qed

lemma exit_inv_run: "exit_inv s \<Longrightarrow> run as s = Some s' \<Longrightarrow> exit_inv s'"
proof (induction as arbitrary: s)
  case Nil
  then show ?case by simp
next
  case (Cons a as)
  from Cons.prems(2) obtain s1 where a: "exec a s = Some s1" and as: "run as s1 = Some s'"
    by (auto split: option.splits)
  from exit_inv_exec [OF Cons.prems(1) a] as show ?case by (rule Cons.IH)
qed

lemma reachable_exit_inv: "run as (thread_pool n) = Some s \<Longrightarrow> exit_inv s"
proof (rule exit_inv_run)
  show "exit_inv (thread_pool n)" by (simp add: exit_inv_def thread_pool_def)
qed

lemma in_flight_returned:
  "(\<forall>i<length ws. ws ! i = W_Returned) \<Longrightarrow> in_flight ws = {#}"
proof (induction ws)
  case Nil
  then show ?case by (simp add: in_flight_def)
next
  case (Cons w ws)
  from Cons.prems have "w = W_Returned" and "\<forall>i<length ws. ws ! i = W_Returned" by auto
  with Cons.IH show ?case by (simp add: in_flight_Cons)
qed

lemma idle_upd [simp]: "(\<lambda>k. P_Idle)(j := P_Idle) = (\<lambda>k. P_Idle)"
  by (rule ext) simp

lemma run_append: "run (as @ bs) s = (case run as s of None \<Rightarrow> None | Some s' \<Rightarrow> run bs s')"
  by (induction as arbitrary: s) (auto split: option.splits)

text \<open>
  A worker parked in the wait loop stays there as long as nothing is submitted: it
  only goes round the loop of lines 89 and 90, which never reads \<open>stop_\<close>, and the
  destructor cannot get past its \<open>join\<close>.
\<close>

lemma parked_exec:
  assumes "parked i s" "\<not> is_call a" "exec a s = Some s'"
  shows "parked i s'"
proof -
  from assms(1) have i: "i < length (workers s)" and w: "in_wait_loop (workers s ! i)"
    and q: "tasks s = []" and p: "\<And>k. producers s k = P_Idle"
    and o: "case owner s of O_Alive \<Rightarrow> True | O_Join j \<Rightarrow> j \<le> i | O_Done \<Rightarrow> False"
    by (simp_all add: parked_def)
  have other: "parked i s'"
    if "tasks s' = []" "producers s' = producers s" "owner s' = owner s"
      "workers s' = (workers s)[j := l]" "j = i \<longrightarrow> in_wait_loop l" for j l
    using that i w p o by (cases "j = i") (simp_all add: parked_def)
  show ?thesis
  proof (cases a)
    case (WStep j)
    with assms(3) have "worker j s = Some s'" by simp
    then show ?thesis
    proof (cases rule: workerE)
      case lock with w show ?thesis by (intro other [of j W_CheckStop]) (auto simp: q)
    next
      case ret with w show ?thesis by (intro other [of j W_Returned]) (auto simp: q)
    next
      case nostop with w show ?thesis by (intro other [of j W_CheckEmpty]) (auto simp: q)
    next
      case wait with w show ?thesis by (intro other [of j W_Waiting]) (auto simp: q)
    next
      case nonempty with q show ?thesis by simp
    next
      case reacquire with w show ?thesis by (intro other [of j W_CheckEmpty]) (auto simp: q)
    next
      case undef_front with w show ?thesis by (intro other [of j W_Undefined]) (auto simp: q)
    next
      case front with q show ?thesis by simp
    next
      case undef_pop with w show ?thesis by (intro other [of j W_Undefined]) (auto simp: q)
    next
      case popfront with q show ?thesis by simp
    next
      case (unlock t) with w show ?thesis by (intro other [of j "W_Run t"]) (auto simp: q)
    next
      case (throw t) with w show ?thesis by (intro other [of j "W_Terminated t"]) (auto simp: q)
    next
      case finish with w show ?thesis by (intro other [of j W_Lock]) (auto simp: q)
    qed
  next
    case (Wake j)
    with assms(3) have "wake j s = Some s'" by simp
    then show ?thesis
    proof (cases rule: wakeE)
      case wake then show ?thesis by (intro other [of j W_Reacquire]) (auto simp: q)
    qed
  next
    case (PCall k f)
    with assms(2) show ?thesis by simp
  next
    case (PStep k pick)
    with assms(3) have "enqueue k pick s = Some s'" by simp
    with p [of k] show ?thesis by (simp add: enqueue_def)
  next
    case OStep
    with assms(3) have "destructor s = Some s'" by simp
    then show ?thesis
    proof (cases rule: destructorE)
      case stop with i w q p show ?thesis by (simp add: parked_def)
    next
      case (join j)
      with o w have "j \<noteq> i" "j \<le> i" by auto
      with join i w q p show ?thesis by (simp add: parked_def)
    next
      case (finish j)
      with o i show ?thesis by simp
    qed
  qed
qed

lemma parked_run: "parked i s \<Longrightarrow> no_calls as \<Longrightarrow> run as s = Some s' \<Longrightarrow> parked i s'"
proof (induction as arbitrary: s)
  case Nil
  then show ?case by simp
next
  case (Cons a as)
  from Cons.prems(3) obtain s1 where a: "exec a s = Some s1" and as: "run as s1 = Some s'"
    by (auto split: option.splits)
  from Cons.prems(2) have na: "\<not> is_call a" and nas: "no_calls as"
    by (auto simp: no_calls_def split: if_splits)
  from parked_exec [OF Cons.prems(1) na a] nas as show ?case by (rule Cons.IH)
qed

text \<open>A pool without workers never pops or runs a task.\<close>

lemma no_workers_exec:
  assumes "workers s = []" "exec a s = Some s'"
  shows "workers s' = [] \<and> popped s' = popped s \<and> executed s' = executed s"
proof (cases a)
  case (WStep i)
  with assms show ?thesis by (simp add: worker_def)
next
  case (Wake i)
  with assms show ?thesis by (simp add: wake_def)
next
  case (PCall k f)
  with assms(2) have "call_enqueue k f s = Some s'" by simp
  then show ?thesis using assms(1) by (cases rule: call_enqueueE) simp
next
  case (PStep k pick)
  with assms(2) have "enqueue k pick s = Some s'" by simp
  then show ?thesis using assms(1) by (cases rule: enqueueE) simp_all
next
  case OStep
  with assms(2) have "destructor s = Some s'" by simp
  then show ?thesis using assms(1) by (cases rule: destructorE) simp_all
qed

lemma no_workers_run:
  "workers s = [] \<Longrightarrow> run as s = Some s'
    \<Longrightarrow> workers s' = [] \<and> popped s' = popped s \<and> executed s' = executed s"
proof (induction as arbitrary: s)
  case Nil
  then show ?case by simp
next
  case (Cons a as)
  from Cons.prems(2) obtain s1 where a: "exec a s = Some s1" and as: "run as s1 = Some s'"
    by (auto split: option.splits)
  from no_workers_exec [OF Cons.prems(1) a] Cons.IH [OF _ as] show ?case by simp
qed

text \<open>A worker whose task threw stays where the exception left it.\<close>

lemma terminated_exec:
  assumes "i < length (workers s)" "workers s ! i = W_Terminated t" "exec a s = Some s'"
  shows "i < length (workers s') \<and> workers s' ! i = W_Terminated t"
proof (cases a)
  case (WStep j)
  with assms(3) have "worker j s = Some s'" by simp
  then show ?thesis using assms(1,2) by (cases rule: workerE) (auto simp: nth_list_update)
next
  case (Wake j)
  with assms(3) have "wake j s = Some s'" by simp
  then show ?thesis using assms(1,2) by (cases rule: wakeE) (auto simp: nth_list_update)
next
  case (PCall k f)
  with assms(3) have "call_enqueue k f s = Some s'" by simp
  then show ?thesis using assms(1,2) by (cases rule: call_enqueueE) simp
next
  case (PStep k pick)
  with assms(3) have "enqueue k pick s = Some s'" by simp
  then show ?thesis using assms(1,2) by (cases rule: enqueueE) (auto simp: nth_list_update)
next
  case OStep
  with assms(3) have "destructor s = Some s'" by simp
  then show ?thesis using assms(1,2) by (cases rule: destructorE) simp_all
qed

lemma terminated_run:
  "i < length (workers s) \<Longrightarrow> workers s ! i = W_Terminated t \<Longrightarrow> run as s = Some s'
    \<Longrightarrow> i < length (workers s') \<and> workers s' ! i = W_Terminated t"
proof (induction as arbitrary: s)
  case Nil
  then show ?case by simp
next
  case (Cons a as)
  from Cons.prems(3) obtain s1 where a: "exec a s = Some s1" and as: "run as s1 = Some s'"
    by (auto split: option.splits)
  from terminated_exec [OF Cons.prems(1,2) a]
  have "i < length (workers s1)" and "workers s1 ! i = W_Terminated t" by simp_all
  then show ?case using as by (rule Cons.IH)
qed

section \<open>The claims\<close>

text \<open>The definitions a concrete schedule is evaluated with.\<close>

lemmas step_defs = thread_pool_def worker_def goto_def wake_def notify_one_def call_enqueue_def
  enqueue_def destructor_def

text \<open>
  Claim C1 fails on the code. If a worker is in its wait loop, the deque is empty
  and no task is submitted any more, then under every schedule the destructor never
  returns and that worker never returns: line 107 notifies nobody, and the loop of
  lines 89 and 90 does not read \<open>stop_\<close>.
\<close>

theorem destructor_hangs:
  assumes "parked i s" and "no_calls as" and "run as s = Some s'"
  shows "owner s' \<noteq> O_Done \<and> workers s' ! i \<noteq> W_Returned"
proof -
  from assms have "parked i s'" by (rule parked_run)
  then show ?thesis by (auto simp: parked_def)
qed

text \<open>
  A pool of one worker, as in \<open>main\<close>: a task is submitted and run, and the worker
  reaches \<open>wait\<close> on the empty deque. Then the destructor sets \<open>stop_\<close> and blocks in
  \<open>join\<close>; even woken spuriously, the worker waits again.
\<close>

theorem destructor_hangs_witness:
  "run [PCall 0 (Task 1 False), PStep 0 None, PStep 0 None, PStep 0 None, PStep 0 None,
        WStep 0, WStep 0, WStep 0, WStep 0, WStep 0, WStep 0, WStep 0,
        WStep 0, WStep 0, WStep 0] (thread_pool 1) =
     Some ((thread_pool 1)\<lparr>workers := [W_Waiting], submitted := [Task 1 False],
        popped := [Task 1 False], executed := [Task 1 False]\<rparr>) \<and>
   parked 0 ((thread_pool 1)\<lparr>workers := [W_Waiting], submitted := [Task 1 False],
        popped := [Task 1 False], executed := [Task 1 False]\<rparr>) \<and>
   no_calls [OStep, Wake 0, WStep 0, WStep 0] \<and>
   run [OStep, Wake 0, WStep 0, WStep 0]
     ((thread_pool 1)\<lparr>workers := [W_Waiting], submitted := [Task 1 False],
        popped := [Task 1 False], executed := [Task 1 False]\<rparr>) =
     Some ((thread_pool 1)\<lparr>stop := True, workers := [W_Waiting], owner := O_Join 0,
        submitted := [Task 1 False], popped := [Task 1 False], executed := [Task 1 False]\<rparr>) \<and>
   owner ((thread_pool 1)\<lparr>stop := True, workers := [W_Waiting], owner := O_Join 0,
        submitted := [Task 1 False], popped := [Task 1 False], executed := [Task 1 False]\<rparr>)
     \<noteq> O_Done"
proof -
  have r0: "run [PCall 0 (Task 1 False), PStep 0 None, PStep 0 None, PStep 0 None, PStep 0 None,
        WStep 0, WStep 0, WStep 0, WStep 0, WStep 0, WStep 0, WStep 0,
        WStep 0, WStep 0, WStep 0] (thread_pool 1) =
     Some ((thread_pool 1)\<lparr>workers := [W_Waiting], submitted := [Task 1 False],
        popped := [Task 1 False], executed := [Task 1 False]\<rparr>)"
    by (simp add: step_defs)
  have p: "parked 0 ((thread_pool 1)\<lparr>workers := [W_Waiting], submitted := [Task 1 False],
        popped := [Task 1 False], executed := [Task 1 False]\<rparr>)"
    by (simp add: parked_def thread_pool_def)
  have n: "no_calls [OStep, Wake 0, WStep 0, WStep 0]"
    by (simp add: no_calls_def)
  have r: "run [OStep, Wake 0, WStep 0, WStep 0]
     ((thread_pool 1)\<lparr>workers := [W_Waiting], submitted := [Task 1 False],
        popped := [Task 1 False], executed := [Task 1 False]\<rparr>) =
     Some ((thread_pool 1)\<lparr>stop := True, workers := [W_Waiting], owner := O_Join 0,
        submitted := [Task 1 False], popped := [Task 1 False], executed := [Task 1 False]\<rparr>)"
    by (simp add: step_defs)
  from destructor_hangs [OF p n r] r0 p n r show ?thesis by simp
qed

text \<open>
  Claim C2, as amended. In every reachable state each submitted task has run at
  most once (the finished tasks are a sub-multiset of the submitted ones), and a
  worker has returned only if \<open>stop_\<close> is set: that the deque is empty is not
  required. When the destructor has returned, no task is running and every
  submitted task has either finished exactly once or is still in the deque.
\<close>

theorem tasks_at_most_once:
  assumes "run as (thread_pool n) = Some s"
  shows "mset (executed s) \<subseteq># mset (submitted s) \<and>
         (\<forall>i<length (workers s). workers s ! i = W_Returned \<longrightarrow> stop s) \<and>
         (owner s = O_Done \<longrightarrow> mset (executed s) + mset (tasks s) = mset (submitted s))"
proof -
  from assms have inv: "pool_inv s" by (rule reachable_inv)
  then have h1: "popped s @ tasks s = submitted s"
    and h2: "mset (executed s) + in_flight (workers s) = mset (popped s)"
    and j: "join_inv s"
    by (simp_all add: pool_inv_def hist_inv_def)
  from h1 have sub: "mset (submitted s) = mset (popped s) + mset (tasks s)"
    by (simp flip: mset_append)
  have "mset (executed s) \<subseteq># mset (popped s)"
    by (simp flip: h2)
  also have "\<dots> \<subseteq># mset (submitted s)"
    by (simp add: sub)
  finally have once: "mset (executed s) \<subseteq># mset (submitted s)" .
  have fin: "mset (executed s) + mset (tasks s) = mset (submitted s)" if "owner s = O_Done"
  proof -
    from j that have "\<forall>i<length (workers s). workers s ! i = W_Returned"
      by (simp add: join_inv_def)
    then have "in_flight (workers s) = {#}" by (rule in_flight_returned)
    with h2 sub show ?thesis by simp
  qed
  from assms have "exit_inv s" by (rule reachable_exit_inv)
  then have leave: "\<forall>i<length (workers s). workers s ! i = W_Returned \<longrightarrow> stop s"
    by (simp add: exit_inv_def)
  from once fin leave show ?thesis by blast
qed

text \<open>
  Two tasks, one worker: the first task runs, then the destructor sets \<open>stop_\<close>, the
  worker returns at line 85 and the destructor returns; the second task is still
  in the deque.
\<close>

theorem tasks_at_most_once_witness:
  "\<exists>s. run [PCall 0 (Task 1 False), PStep 0 None, PStep 0 None, PStep 0 None, PStep 0 None,
            PCall 0 (Task 2 False), PStep 0 None, PStep 0 None, PStep 0 None, PStep 0 None,
            WStep 0, WStep 0, WStep 0, WStep 0, WStep 0, WStep 0, WStep 0,
            OStep, WStep 0, WStep 0, OStep, OStep] (thread_pool 1) = Some s \<and>
       owner s = O_Done \<and> executed s = [Task 1 False] \<and> tasks s = [Task 2 False] \<and>
       workers s = [W_Returned] \<and> stop s \<and>
       mset (executed s) \<subseteq># mset (submitted s) \<and>
       mset (executed s) + mset (tasks s) = mset (submitted s)"
proof -
  obtain s where r: "run [PCall 0 (Task 1 False), PStep 0 None, PStep 0 None, PStep 0 None, PStep 0 None,
            PCall 0 (Task 2 False), PStep 0 None, PStep 0 None, PStep 0 None, PStep 0 None,
            WStep 0, WStep 0, WStep 0, WStep 0, WStep 0, WStep 0, WStep 0,
            OStep, WStep 0, WStep 0, OStep, OStep] (thread_pool 1) = Some s"
    and v: "owner s = O_Done" "executed s = [Task 1 False]" "tasks s = [Task 2 False]"
      "workers s = [W_Returned]"
    by (simp add: step_defs)
  from tasks_at_most_once [OF r] v r show ?thesis by simp
qed

text \<open>
  Claim C2 as stated fails. A task is submitted, then the destructor runs before
  the worker has locked the mutex: the worker sees \<open>stop_\<close> at line 85 and returns,
  the destructor joins it and returns, and the task is still in the deque, never
  run.
\<close>

theorem queued_task_discarded:
  "run [PCall 0 (Task 1 False), PStep 0 None, PStep 0 None, PStep 0 None, PStep 0 None,
        OStep, WStep 0, WStep 0, OStep, OStep] (thread_pool 1) =
     Some ((thread_pool 1)\<lparr>tasks := [Task 1 False], stop := True, workers := [W_Returned],
        owner := O_Done, submitted := [Task 1 False], popped := [], executed := []\<rparr>)"
  by (simp add: step_defs)

text \<open>
  Claim C3, as amended. For a step of worker \<open>i\<close> from a reachable state. At
  line 85, holding the mutex, the worker returns if \<open>stop_\<close> is set, whatever the
  deque holds, and it never returns with \<open>stop_\<close> unset. While \<open>stop_\<close> is unset, it
  blocks in \<open>wait\<close> only from the test of line 89, with the deque empty and the mutex
  held, and woken it locks the mutex and evaluates that test again. With the deque
  non-empty at line 89 it goes on to line 92, and what it pops is the front
  element, removed while it holds the mutex, which is the task it will run. What a
  worker inside the loop of lines 89 and 90 does once \<open>stop_\<close> is set and the deque
  is empty is not part of the statement.
\<close>

theorem worker_pop_protocol:
  assumes "run as (thread_pool n) = Some s" and "worker i s = Some s'"
  shows "(workers s ! i = W_CheckStop \<and> stop s \<longrightarrow>
            queue_mutex s = Some (Worker i) \<and> workers s' ! i = W_Returned \<and>
            tasks s' = tasks s \<and> popped s' = popped s) \<and>
         (workers s' ! i = W_Returned \<longrightarrow> stop s) \<and>
         (\<not> stop s \<and> workers s' ! i = W_Waiting \<longrightarrow>
            workers s ! i = W_CheckEmpty \<and> tasks s = [] \<and> queue_mutex s = Some (Worker i)) \<and>
         (\<not> stop s \<and> workers s ! i = W_Reacquire \<longrightarrow>
            workers s' ! i = W_CheckEmpty \<and> queue_mutex s' = Some (Worker i)) \<and>
         (workers s ! i = W_CheckEmpty \<and> tasks s \<noteq> [] \<longrightarrow>
            queue_mutex s = Some (Worker i) \<and> workers s' ! i = W_Front) \<and>
         (popped s' \<noteq> popped s \<longrightarrow>
            queue_mutex s = Some (Worker i) \<and> tasks s \<noteq> [] \<and> tasks s' = tl (tasks s) \<and>
            popped s' = popped s @ [hd (tasks s)] \<and> workers s' ! i = W_Unlock (hd (tasks s)))"
proof -
  from assms(1) have "pool_inv s" by (rule reachable_inv)
  then have l: "lock_inv s" and f: "front_inv s" by (simp_all add: pool_inv_def)
  note m = lock_inv_workerD [OF l]
  from assms(2) show ?thesis
  proof (cases rule: workerE)
    case lock then show ?thesis by simp
  next
    case ret with m [of i] show ?thesis by simp
  next
    case nostop then show ?thesis by simp
  next
    case wait with m [of i] show ?thesis by simp
  next
    case nonempty with m [of i] show ?thesis by simp
  next
    case reacquire then show ?thesis by simp
  next
    case undef_front then show ?thesis by simp
  next
    case front then show ?thesis by simp
  next
    case undef_pop then show ?thesis by simp
  next
    case (popfront t u q)
    with f have "u = t" by (auto simp: front_inv_def)
    with popfront m [of i] show ?thesis by simp
  next
    case unlock then show ?thesis by simp
  next
    case throw then show ?thesis by simp
  next
    case finish then show ?thesis by simp
  qed
qed

text \<open>One task, one worker, at the \<open>pop_front\<close> of line 93, \<open>stop_\<close> unset.\<close>

theorem worker_pop_protocol_witness:
  "\<exists>s s'. run [PCall 0 (Task 5 False), PStep 0 None, PStep 0 None, PStep 0 None, PStep 0 None,
            WStep 0, WStep 0, WStep 0, WStep 0] (thread_pool 1) = Some s \<and>
       worker 0 s = Some s' \<and> workers s ! 0 = W_PopFront (Task 5 False) \<and>
       popped s' \<noteq> popped s \<and> queue_mutex s = Some (Worker 0) \<and> tasks s \<noteq> [] \<and>
       tasks s' = tl (tasks s) \<and> popped s' = popped s @ [hd (tasks s)] \<and>
       workers s' ! 0 = W_Unlock (hd (tasks s))"
proof -
  obtain s where r: "run [PCall 0 (Task 5 False), PStep 0 None, PStep 0 None, PStep 0 None,
      PStep 0 None, WStep 0, WStep 0, WStep 0, WStep 0] (thread_pool 1) = Some s"
    and v: "workers s ! 0 = W_PopFront (Task 5 False)" "tasks s = [Task 5 False]"
      "popped s = []" "workers s = [W_PopFront (Task 5 False)]"
    by (simp add: step_defs)
  from v obtain s' where w: "worker 0 s = Some s'" and p: "popped s' \<noteq> popped s"
    by (simp add: worker_def goto_def)
  from worker_pop_protocol [OF r w] p r w v show ?thesis by auto
qed

text \<open>
  Claim C3 as stated fails. A task is in the deque and \<open>stop_\<close> is set when the
  worker reaches line 85: the deque is non-empty, yet the worker does not remove
  and return its front element; it returns, and the task stays in the deque.
\<close>

theorem stop_checked_before_queue:
  "run [PCall 0 (Task 1 False), PStep 0 None, PStep 0 None, PStep 0 None, PStep 0 None,
        OStep, WStep 0, WStep 0] (thread_pool 1) =
     Some ((thread_pool 1)\<lparr>tasks := [Task 1 False], stop := True, workers := [W_Returned],
        owner := O_Join 0, submitted := [Task 1 False]\<rparr>)"
  by (simp add: step_defs)

text \<open>
  Claim C4 fails on the code. Two workers wait on \<open>cv_\<close>; the destructor executes
  line 107. Afterwards \<open>stop_\<close> is set, both workers are still inside \<open>wait\<close> (nobody was
  woken), no worker can take a step, and the destructor is blocked in \<open>join\<close>.
\<close>

theorem shutdown_wakes_nobody:
  "run [WStep 0, WStep 0, WStep 0, WStep 1, WStep 1, WStep 1, OStep] (thread_pool 2) =
     Some ((thread_pool 2)\<lparr>stop := True, workers := [W_Waiting, W_Waiting], owner := O_Join 0\<rparr>) \<and>
   worker 0 ((thread_pool 2)\<lparr>stop := True, workers := [W_Waiting, W_Waiting], owner := O_Join 0\<rparr>) = None \<and>
   worker 1 ((thread_pool 2)\<lparr>stop := True, workers := [W_Waiting, W_Waiting], owner := O_Join 0\<rparr>) = None \<and>
   destructor ((thread_pool 2)\<lparr>stop := True, workers := [W_Waiting, W_Waiting], owner := O_Join 0\<rparr>) = None"
  by (simp add: step_defs eval_nat_numeral)

text \<open>
  Claim C5 fails on the code. Worker 0 locks \<open>queue_mutex_\<close> at line 83 and is about
  to read \<open>stop_\<close> at line 85; the destructor writes \<open>stop_\<close> at line 107 all the same:
  the mutex is still owned by worker 0.
\<close>

theorem stop_written_without_lock:
  "run [WStep 0, OStep] (thread_pool 1) =
     Some ((thread_pool 1)\<lparr>stop := True, queue_mutex := Some (Worker 0),
        workers := [W_CheckStop], owner := O_Join 0\<rparr>)"
  by (simp add: step_defs)

text \<open>
  Claim C6, as amended. \<open>enqueue\<close> has no test of \<open>stop_\<close> and no error result. From any
  state in which the caller is outside \<open>enqueue\<close> and the mutex is free, whatever the
  value of \<open>stop_\<close>, the call runs to its end: the task is appended to the back of the
  deque and the call returns.
\<close>

theorem enqueue_never_rejects:
  assumes "producers s k = P_Idle" and "queue_mutex s = None"
  shows "\<exists>pick s'. run [PCall k f, PStep k None, PStep k None, PStep k pick, PStep k None] s = Some s' \<and>
           tasks s' = tasks s @ [f] \<and> submitted s' = submitted s @ [f] \<and>
           producers s' k = P_Idle \<and> queue_mutex s' = None \<and> stop s' = stop s"
proof (cases "W_Waiting \<in> set (workers s)")
  case False
  with assms have "\<exists>s'. run [PCall k f, PStep k None, PStep k None, PStep k None, PStep k None] s = Some s' \<and>
           tasks s' = tasks s @ [f] \<and> submitted s' = submitted s @ [f] \<and>
           producers s' k = P_Idle \<and> queue_mutex s' = None \<and> stop s' = stop s"
    by (simp add: call_enqueue_def enqueue_def notify_one_def)
  then show ?thesis by blast
next
  case True
  then obtain i where i: "i < length (workers s)" "workers s ! i = W_Waiting"
    by (auto simp: in_set_conv_nth)
  with assms have "\<exists>s'. run [PCall k f, PStep k None, PStep k None, PStep k (Some i), PStep k None] s = Some s' \<and>
           tasks s' = tasks s @ [f] \<and> submitted s' = submitted s @ [f] \<and>
           producers s' k = P_Idle \<and> queue_mutex s' = None \<and> stop s' = stop s"
    by (simp add: call_enqueue_def enqueue_def notify_one_def wake_def goto_def)
  then show ?thesis by blast
qed

text \<open>A call of \<open>enqueue\<close> after line 107 has set \<open>stop_\<close>.\<close>

theorem enqueue_never_rejects_witness:
  "producers ((thread_pool 1)\<lparr>stop := True, owner := O_Join 0\<rparr>) 0 = P_Idle \<and>
   queue_mutex ((thread_pool 1)\<lparr>stop := True, owner := O_Join 0\<rparr>) = None \<and>
   stop ((thread_pool 1)\<lparr>stop := True, owner := O_Join 0\<rparr>) \<and>
   (\<exists>pick s'. run [PCall 0 (Task 9 False), PStep 0 None, PStep 0 None, PStep 0 pick, PStep 0 None]
        ((thread_pool 1)\<lparr>stop := True, owner := O_Join 0\<rparr>) = Some s' \<and>
      tasks s' = [Task 9 False] \<and> producers s' 0 = P_Idle \<and> stop s')"
proof -
  have p: "producers ((thread_pool 1)\<lparr>stop := True, owner := O_Join 0\<rparr>) 0 = P_Idle"
    and m: "queue_mutex ((thread_pool 1)\<lparr>stop := True, owner := O_Join 0\<rparr>) = None"
    and v: "stop ((thread_pool 1)\<lparr>stop := True, owner := O_Join 0\<rparr>)"
      "tasks ((thread_pool 1)\<lparr>stop := True, owner := O_Join 0\<rparr>) = []"
    by (simp_all add: thread_pool_def)
  from enqueue_never_rejects [OF p m, of "Task 9 False"] p m v show ?thesis
    by (metis append_Nil)
qed

text \<open>
  Claim C6 as stated fails. The worker passes line 85 before the destructor sets
  \<open>stop_\<close>, and waits. A task submitted after that is pushed on the deque, the call
  returns, and the worker, notified, pops the task and runs it.
\<close>

theorem late_task_queued_and_run:
  "run [WStep 0, WStep 0, OStep, WStep 0,
        PCall 0 (Task 1 False), PStep 0 None, PStep 0 None, PStep 0 (Some 0), PStep 0 None,
        WStep 0, WStep 0, WStep 0, WStep 0, WStep 0, WStep 0] (thread_pool 1) =
     Some ((thread_pool 1)\<lparr>stop := True, workers := [W_Lock], owner := O_Join 0,
        submitted := [Task 1 False], popped := [Task 1 False], executed := [Task 1 False]\<rparr>)"
  by (simp add: step_defs)

text \<open>
  Claim C7, as amended. The constructor does not fail for \<open>threads = 0\<close>: it returns a
  pool with no worker, an empty deque and \<open>stop_\<close> unset. In every state that pool
  reaches there is no worker and no task has run: what is submitted stays in the
  deque.
\<close>

theorem zero_threads_accepted:
  assumes "run as (thread_pool 0) = Some s"
  shows "construct 0 = Inr (thread_pool 0) \<and> workers (thread_pool 0) = [] \<and>
         tasks (thread_pool 0) = [] \<and> \<not> stop (thread_pool 0) \<and>
         workers s = [] \<and> executed s = [] \<and> tasks s = submitted s"
proof -
  have w0: "workers (thread_pool 0) = []" by (simp add: thread_pool_def)
  from no_workers_run [OF w0 assms]
  have "workers s = []" "popped s = []" "executed s = []"
    by (simp_all add: thread_pool_def)
  moreover from assms have "pool_inv s" by (rule reachable_inv)
  then have "popped s @ tasks s = submitted s" by (simp add: pool_inv_def hist_inv_def)
  ultimately show ?thesis by (simp add: construct_def thread_pool_def)
qed

text \<open>A task submitted to the pool of zero threads.\<close>

theorem zero_threads_accepted_witness:
  "run [PCall 0 (Task 1 False), PStep 0 None, PStep 0 None, PStep 0 None, PStep 0 None]
     (thread_pool 0) = Some ((thread_pool 0)\<lparr>tasks := [Task 1 False], submitted := [Task 1 False]\<rparr>) \<and>
   construct 0 = Inr (thread_pool 0) \<and>
   workers ((thread_pool 0)\<lparr>tasks := [Task 1 False], submitted := [Task 1 False]\<rparr>) = [] \<and>
   executed ((thread_pool 0)\<lparr>tasks := [Task 1 False], submitted := [Task 1 False]\<rparr>) = []"
proof -
  have r: "run [PCall 0 (Task 1 False), PStep 0 None, PStep 0 None, PStep 0 None, PStep 0 None]
     (thread_pool 0) = Some ((thread_pool 0)\<lparr>tasks := [Task 1 False], submitted := [Task 1 False]\<rparr>)"
    by (simp add: step_defs)
  from zero_threads_accepted [OF r] r show ?thesis by simp
qed

text \<open>
  Claim C7 as stated fails: \<open>thread_pool(0)\<close> is not an error but a pool, which takes
  a task and whose destructor returns, the task never run.
\<close>

theorem construct_zero_succeeds:
  "construct 0 \<noteq> Inl InvalidConfiguration \<and> construct 0 = Inr (thread_pool 0) \<and>
   run [PCall 0 (Task 1 False), PStep 0 None, PStep 0 None, PStep 0 None, PStep 0 None,
        OStep, OStep] (thread_pool 0) =
     Some ((thread_pool 0)\<lparr>tasks := [Task 1 False], stop := True, owner := O_Done,
        submitted := [Task 1 False]\<rparr>)"
  by (simp add: step_defs construct_def)

text \<open>
  Claim C8. The queue is first in, first out: in every reachable state the tasks
  popped so far, in the order of their \<open>pop_front\<close>, followed by the tasks still in
  the deque, are the tasks in the order of their \<open>push_back\<close>. So the \<open>a\<close>-th and the
  \<open>b\<close>-th popped task are the \<open>a\<close>-th and the \<open>b\<close>-th submitted one: of two tasks, the
  one submitted first is popped first.
\<close>

theorem fifo_order:
  assumes "run as (thread_pool n) = Some s"
  shows "popped s @ tasks s = submitted s \<and>
         (\<forall>a b. a < b \<and> b < length (popped s) \<longrightarrow>
            popped s ! a = submitted s ! a \<and> popped s ! b = submitted s ! b)"
proof -
  from assms have "pool_inv s" by (rule reachable_inv)
  then have h: "popped s @ tasks s = submitted s" by (simp add: pool_inv_def hist_inv_def)
  have "popped s ! c = submitted s ! c" if "c < length (popped s)" for c
    using that by (simp add: nth_append flip: h)
  with h show ?thesis by simp
qed

text \<open>
  Three tasks submitted in a row to a pool of two workers; worker 0 pops, then
  worker 1: the tasks leave in the order they came.
\<close>

theorem fifo_order_witness:
  "\<exists>s. run [PCall 0 (Task 1 False), PStep 0 None, PStep 0 None, PStep 0 None, PStep 0 None,
            PCall 0 (Task 2 False), PStep 0 None, PStep 0 None, PStep 0 None, PStep 0 None,
            PCall 0 (Task 3 False), PStep 0 None, PStep 0 None, PStep 0 None, PStep 0 None,
            WStep 0, WStep 0, WStep 0, WStep 0, WStep 0, WStep 0,
            WStep 1, WStep 1, WStep 1, WStep 1, WStep 1] (thread_pool 2) = Some s \<and>
       submitted s = [Task 1 False, Task 2 False, Task 3 False] \<and>
       popped s = [Task 1 False, Task 2 False] \<and> tasks s = [Task 3 False] \<and>
       popped s @ tasks s = submitted s \<and>
       popped s ! 0 = submitted s ! 0 \<and> popped s ! 1 = submitted s ! 1"
proof -
  obtain s where r: "run [PCall 0 (Task 1 False), PStep 0 None, PStep 0 None, PStep 0 None, PStep 0 None,
            PCall 0 (Task 2 False), PStep 0 None, PStep 0 None, PStep 0 None, PStep 0 None,
            PCall 0 (Task 3 False), PStep 0 None, PStep 0 None, PStep 0 None, PStep 0 None,
            WStep 0, WStep 0, WStep 0, WStep 0, WStep 0, WStep 0,
            WStep 1, WStep 1, WStep 1, WStep 1, WStep 1] (thread_pool 2) = Some s"
    and v: "submitted s = [Task 1 False, Task 2 False, Task 3 False]"
      "popped s = [Task 1 False, Task 2 False]" "tasks s = [Task 3 False]"
    by (simp add: step_defs)
  from fifo_order [OF r] have "popped s @ tasks s = submitted s"
    and "popped s ! 0 = submitted s ! 0 \<and> popped s ! 1 = submitted s ! 1"
    using v by simp_all
  with r v show ?thesis by simp
qed

text \<open>
  Claim C9, as amended. The call of line 95 is not guarded. When it returns, the
  task counts as run and the worker goes back to line 83. When it throws, the
  exception leaves \<open>worker::operator()\<close>: the task does not count as run, and under
  every schedule the worker stays where the exception left it and takes no step
  any more.
\<close>

theorem task_failure_not_contained:
  assumes "i < length (workers s)" and "workers s ! i = W_Run t"
  shows "\<exists>s1. worker i s = Some s1 \<and>
           (if throws t
            then workers s1 ! i = W_Terminated t \<and> executed s1 = executed s \<and>
                 (\<forall>as s'. run as s1 = Some s' \<longrightarrow>
                    workers s' ! i = W_Terminated t \<and> worker i s' = None)
            else workers s1 ! i = W_Lock \<and> executed s1 = executed s @ [t])"
proof (cases "throws t")
  case False
  with assms show ?thesis by (simp add: worker_def goto_def)
next
  case True
  define s1 where "s1 = s\<lparr>workers := (workers s)[i := W_Terminated t]\<rparr>"
  from assms True have w: "worker i s = Some s1" by (simp add: worker_def goto_def s1_def)
  from assms have t: "i < length (workers s1)" "workers s1 ! i = W_Terminated t"
    by (simp_all add: s1_def)
  have "workers s' ! i = W_Terminated t \<and> worker i s' = None" if "run as s1 = Some s'" for as s'
    using terminated_run [OF t that] by (simp add: worker_def)
  with w t True show ?thesis by (simp add: s1_def)
qed

text \<open>
  One worker pops a task that throws; afterwards the destructor sets \<open>stop_\<close> and the
  worker is still where the exception left it.
\<close>

theorem task_failure_not_contained_witness:
  "run [PCall 0 (Task 1 True), PStep 0 None, PStep 0 None, PStep 0 None, PStep 0 None,
        WStep 0, WStep 0, WStep 0, WStep 0, WStep 0, WStep 0] (thread_pool 1) =
     Some ((thread_pool 1)\<lparr>workers := [W_Run (Task 1 True)],
        submitted := [Task 1 True], popped := [Task 1 True]\<rparr>) \<and>
   worker 0 ((thread_pool 1)\<lparr>workers := [W_Run (Task 1 True)],
        submitted := [Task 1 True], popped := [Task 1 True]\<rparr>) =
     Some ((thread_pool 1)\<lparr>workers := [W_Terminated (Task 1 True)],
        submitted := [Task 1 True], popped := [Task 1 True]\<rparr>) \<and>
   run [OStep] ((thread_pool 1)\<lparr>workers := [W_Terminated (Task 1 True)],
        submitted := [Task 1 True], popped := [Task 1 True]\<rparr>) =
     Some ((thread_pool 1)\<lparr>stop := True, workers := [W_Terminated (Task 1 True)],
        owner := O_Join 0, submitted := [Task 1 True], popped := [Task 1 True]\<rparr>) \<and>
   worker 0 ((thread_pool 1)\<lparr>stop := True, workers := [W_Terminated (Task 1 True)],
        owner := O_Join 0, submitted := [Task 1 True], popped := [Task 1 True]\<rparr>) = None"
proof -
  have r0: "run [PCall 0 (Task 1 True), PStep 0 None, PStep 0 None, PStep 0 None, PStep 0 None,
        WStep 0, WStep 0, WStep 0, WStep 0, WStep 0, WStep 0] (thread_pool 1) =
     Some ((thread_pool 1)\<lparr>workers := [W_Run (Task 1 True)],
        submitted := [Task 1 True], popped := [Task 1 True]\<rparr>)"
    by (simp add: step_defs)
  have i: "0 < length (workers ((thread_pool 1)\<lparr>workers := [W_Run (Task 1 True)],
        submitted := [Task 1 True], popped := [Task 1 True]\<rparr>))"
    and w: "workers ((thread_pool 1)\<lparr>workers := [W_Run (Task 1 True)],
        submitted := [Task 1 True], popped := [Task 1 True]\<rparr>) ! 0 = W_Run (Task 1 True)"
    by simp_all
  have s1: "worker 0 ((thread_pool 1)\<lparr>workers := [W_Run (Task 1 True)],
        submitted := [Task 1 True], popped := [Task 1 True]\<rparr>) =
     Some ((thread_pool 1)\<lparr>workers := [W_Terminated (Task 1 True)],
        submitted := [Task 1 True], popped := [Task 1 True]\<rparr>)"
    by (simp add: step_defs)
  have r: "run [OStep] ((thread_pool 1)\<lparr>workers := [W_Terminated (Task 1 True)],
        submitted := [Task 1 True], popped := [Task 1 True]\<rparr>) =
     Some ((thread_pool 1)\<lparr>stop := True, workers := [W_Terminated (Task 1 True)],
        owner := O_Join 0, submitted := [Task 1 True], popped := [Task 1 True]\<rparr>)"
    by (simp add: step_defs)
  from task_failure_not_contained [OF i w] obtain x
    where x: "worker 0 ((thread_pool 1)\<lparr>workers := [W_Run (Task 1 True)],
        submitted := [Task 1 True], popped := [Task 1 True]\<rparr>) = Some x"
      and sink: "\<And>as s'. run as x = Some s' \<Longrightarrow> worker 0 s' = None"
    by auto
  from x s1 have "x = (thread_pool 1)\<lparr>workers := [W_Terminated (Task 1 True)],
        submitted := [Task 1 True], popped := [Task 1 True]\<rparr>"
    by simp
  with sink [of "[OStep]"] r
  have "worker 0 ((thread_pool 1)\<lparr>stop := True, workers := [W_Terminated (Task 1 True)],
        owner := O_Join 0, submitted := [Task 1 True], popped := [Task 1 True]\<rparr>) = None"
    by blast
  with r0 s1 r show ?thesis by simp
qed

text \<open>
  Claim C9 as stated fails. Two tasks are queued and the first throws: the worker
  does not go back to its loop, it can take no step, and the second task stays in
  the deque.
\<close>

theorem throwing_task_stops_worker:
  "run [PCall 0 (Task 1 True), PStep 0 None, PStep 0 None, PStep 0 None, PStep 0 None,
        PCall 0 (Task 2 False), PStep 0 None, PStep 0 None, PStep 0 None, PStep 0 None,
        WStep 0, WStep 0, WStep 0, WStep 0, WStep 0, WStep 0, WStep 0] (thread_pool 1) =
     Some ((thread_pool 1)\<lparr>tasks := [Task 2 False], workers := [W_Terminated (Task 1 True)],
        submitted := [Task 1 True, Task 2 False], popped := [Task 1 True]\<rparr>) \<and>
   worker 0 ((thread_pool 1)\<lparr>tasks := [Task 2 False], workers := [W_Terminated (Task 1 True)],
        submitted := [Task 1 True, Task 2 False], popped := [Task 1 True]\<rparr>) = None"
  by (simp add: step_defs)

text \<open>
  Claim C10. In every state the pool can reach, from any number of workers and
  under any interleaving, a worker that is about to execute \<open>front()\<close> (line 92) or
  \<open>pop_front()\<close> (line 93) finds the deque non-empty and holds \<open>queue_mutex_\<close>; no
  worker has ever applied one of them to an empty deque.
\<close>

theorem worker_front_nonempty:
  assumes "run as (thread_pool n) = Some s" and "i < length (workers s)"
  shows "(workers s ! i = W_Front \<or> (\<exists>t. workers s ! i = W_PopFront t)
            \<longrightarrow> tasks s \<noteq> [] \<and> queue_mutex s = Some (Worker i)) \<and>
         workers s ! i \<noteq> W_Undefined"
proof -
  from assms(1) have inv: "pool_inv s" by (rule reachable_inv)
  then have l: "lock_inv s" and f: "front_inv s" by (simp_all add: pool_inv_def)
  from f assms(2) have "workers s ! i \<noteq> W_Undefined"
    and "workers s ! i = W_Front \<or> (\<exists>t. workers s ! i = W_PopFront t) \<longrightarrow> tasks s \<noteq> []"
    by (auto simp: front_inv_def)
  moreover have "workers s ! i = W_Front \<or> (\<exists>t. workers s ! i = W_PopFront t)
      \<longrightarrow> queue_mutex s = Some (Worker i)"
    using lock_inv_workerD [OF l assms(2)] by auto
  ultimately show ?thesis by blast
qed

text \<open>
  One worker and one submitted task: after the test of line 89 the worker is at
  line 92, the deque holds the task and the worker owns the mutex.
\<close>

theorem worker_front_nonempty_witness:
  "\<exists>s. run [PCall 0 (Task 7 False), PStep 0 None, PStep 0 None, PStep 0 None, PStep 0 None,
            WStep 0, WStep 0, WStep 0] (thread_pool 1) = Some s \<and>
       0 < length (workers s) \<and> workers s ! 0 = W_Front \<and>
       tasks s \<noteq> [] \<and> queue_mutex s = Some (Worker 0) \<and> workers s ! 0 \<noteq> W_Undefined"
proof -
  obtain s where r: "run [PCall 0 (Task 7 False), PStep 0 None, PStep 0 None, PStep 0 None,
      PStep 0 None, WStep 0, WStep 0, WStep 0] (thread_pool 1) = Some s"
    and i: "0 < length (workers s)" and w: "workers s ! 0 = W_Front"
    by (simp add: step_defs)
  from worker_front_nonempty [OF r i] w r i show ?thesis by simp
qed

end
